theory Spec2Isabelle
  imports Main "HOL-Library.Word"
begin

unbundle bit_operations_syntax

section \<open>PKCS7 padding: the embedding of \<^verbatim>\<open>hazmat/primitives/padding.py\<close>\<close>

subsection \<open>Data\<close>

type_synonym byte = "8 word"

text \<open>
  The exceptions of the module. Python raises \<^verbatim>\<open>ValueError\<close> with three different
  messages and \<^verbatim>\<open>TypeError\<close>; they are kept apart here under the names of the
  specification:
  \<^item> \<open>InvalidParameter\<close>: \<^verbatim>\<open>ValueError("block_size must be ...")\<close>;
  \<^item> \<open>UseAfterFinalize\<close>: \<^verbatim>\<open>ValueError("Context was already finalized")\<close>;
  \<^item> \<open>EncodingError\<close>: \<^verbatim>\<open>TypeError("Unicode-objects must be encoded ...")\<close>;
  \<^item> \<open>InvalidPadding\<close>: \<^verbatim>\<open>ValueError("Invalid padding bytes")\<close>;
  \<^item> \<open>ZeroDivisionError\<close>: raised by \<^verbatim>\<open>//\<close> with a zero divisor;
  \<^item> \<open>ByteRangeError\<close>: raised by \<^verbatim>\<open>six.int2byte\<close> outside \<^verbatim>\<open>range(256)\<close>.
\<close>

datatype error =
    InvalidParameter
  | UseAfterFinalize
  | EncodingError
  | InvalidPadding
  | ZeroDivisionError
  | ByteRangeError

text \<open>The argument of \<^verbatim>\<open>update\<close>: a byte string, or a text string (\<^verbatim>\<open>six.text_type\<close>).\<close>

datatype data = Bytes "byte list" | Text string

record PKCS7 =
  block_size :: int

text \<open>\<^verbatim>\<open>_buffer\<close> is \<open>None\<close> once the context is finalized.\<close>

record PKCS7PaddingContext =
  pad_block_size :: int
  pad_buffer :: "byte list option"

record PKCS7UnpaddingContext =
  unpad_block_size :: int
  unpad_buffer :: "byte list option"

subsection \<open>Python primitives\<close>

text \<open>
  \<^verbatim>\<open>xs[:n]\<close> and \<^verbatim>\<open>xs[n:]\<close>: a negative bound counts from the end, and every bound is
  clamped to the sequence (\<open>nat\<close> clamps below, \<open>take\<close> and \<open>drop\<close> above).
\<close>

definition slice_to :: "'a list \<Rightarrow> int \<Rightarrow> 'a list" where
  "slice_to xs n = take (nat (if n < 0 then int (length xs) + n else n)) xs"

definition slice_from :: "'a list \<Rightarrow> int \<Rightarrow> 'a list" where
  "slice_from xs n = drop (nat (if n < 0 then int (length xs) + n else n)) xs"

text \<open>\<^verbatim>\<open>six.int2byte\<close>: the byte of a number in \<^verbatim>\<open>range(256)\<close>, an exception otherwise.\<close>

definition int2byte :: "int \<Rightarrow> error + byte" where
  "int2byte i = (if 0 \<le> i \<and> i < 256 then Inr (word_of_int i) else Inl ByteRangeError)"

text \<open>\<^verbatim>\<open>bytes * n\<close>: empty for \<open>n \<le> 0\<close>.\<close>

definition bytes_times :: "byte \<Rightarrow> int \<Rightarrow> byte list" where
  "bytes_times b n = replicate (nat n) b"

subsection \<open>Scheme configuration\<close>

definition PKCS7_init :: "int \<Rightarrow> error + PKCS7" where
  "PKCS7_init bs =
     (if \<not> (0 \<le> bs \<and> bs < 256) then Inl InvalidParameter
      else if bs mod 8 \<noteq> 0 then Inl InvalidParameter
      else Inr \<lparr>block_size = bs\<rparr>)"

definition padder :: "PKCS7 \<Rightarrow> PKCS7PaddingContext" where
  "padder s = \<lparr>pad_block_size = block_size s, pad_buffer = Some []\<rparr>"

definition unpadder :: "PKCS7 \<Rightarrow> PKCS7UnpaddingContext" where
  "unpadder s = \<lparr>unpad_block_size = block_size s, unpad_buffer = Some []\<rparr>"

subsection \<open>Padding context\<close>

text \<open>
  Each method returns its result (or the exception) and the context after the call.
  In \<^verbatim>\<open>update\<close> the buffer is extended before the division, so a zero divisor leaves
  the extended buffer behind.
\<close>

definition padding_update ::
  "data \<Rightarrow> PKCS7PaddingContext \<Rightarrow> (error + byte list) \<times> PKCS7PaddingContext" where
  "padding_update d c =
     (case pad_buffer c of
        None \<Rightarrow> (Inl UseAfterFinalize, c)
      | Some buf \<Rightarrow>
          (case d of
             Text t \<Rightarrow> (Inl EncodingError, c)
           | Bytes bs \<Rightarrow>
               (let buf' = buf @ bs;
                    bsb = pad_block_size c div 8
                in if bsb = 0 then (Inl ZeroDivisionError, c\<lparr>pad_buffer := Some buf'\<rparr>)
                   else
                     (let finished_blocks = int (length buf') div bsb
                      in (Inr (slice_to buf' (finished_blocks * bsb)),
                          c\<lparr>pad_buffer := Some (slice_from buf' (finished_blocks * bsb))\<rparr>)))))"

definition padding_finalize ::
  "PKCS7PaddingContext \<Rightarrow> (error + byte list) \<times> PKCS7PaddingContext" where
  "padding_finalize c =
     (case pad_buffer c of
        None \<Rightarrow> (Inl UseAfterFinalize, c)
      | Some buf \<Rightarrow>
          (let pad_size = pad_block_size c div 8 - int (length buf)
           in case int2byte pad_size of
                Inl e \<Rightarrow> (Inl e, c)
              | Inr b \<Rightarrow> (Inr (buf @ bytes_times b pad_size), c\<lparr>pad_buffer := None\<rparr>)))"

subsection \<open>Unpadding context\<close>

definition unpadding_update ::
  "data \<Rightarrow> PKCS7UnpaddingContext \<Rightarrow> (error + byte list) \<times> PKCS7UnpaddingContext" where
  "unpadding_update d c =
     (case unpad_buffer c of
        None \<Rightarrow> (Inl UseAfterFinalize, c)
      | Some buf \<Rightarrow>
          (case d of
             Text t \<Rightarrow> (Inl EncodingError, c)
           | Bytes bs \<Rightarrow>
               (let buf' = buf @ bs;
                    bsb = unpad_block_size c div 8
                in if bsb = 0 then (Inl ZeroDivisionError, c\<lparr>unpad_buffer := Some buf'\<rparr>)
                   else
                     (let finished_blocks = max (int (length buf') div bsb - 1) 0
                      in (Inr (slice_to buf' (finished_blocks * bsb)),
                          c\<lparr>unpad_buffer := Some (slice_from buf' (finished_blocks * bsb))\<rparr>)))))"

text \<open>
  The loop of \<^verbatim>\<open>finalize\<close>: \<^verbatim>\<open>mismatch |= b ^ pad_size\<close> for every byte of the window,
  on Python integers.
\<close>

definition mismatch_of :: "byte list \<Rightarrow> int \<Rightarrow> int" where
  "mismatch_of window pad_size = fold (\<lambda>b mismatch. mismatch OR (uint b XOR pad_size)) window 0"

definition unpadding_finalize ::
  "PKCS7UnpaddingContext \<Rightarrow> (error + byte list) \<times> PKCS7UnpaddingContext" where
  "unpadding_finalize c =
     (case unpad_buffer c of
        None \<Rightarrow> (Inl UseAfterFinalize, c)
      | Some buf \<Rightarrow>
          if buf = [] then (Inl InvalidPadding, c)
          else
            (let pad_size = uint (last buf)
             in if pad_size > unpad_block_size c div 8 then (Inl InvalidPadding, c)
                else if mismatch_of (slice_from buf (- pad_size)) pad_size \<noteq> 0
                  then (Inl InvalidPadding, c)
                else (Inr (slice_to buf (- pad_size)), c\<lparr>unpad_buffer := None\<rparr>)))"

subsection \<open>Driving a context\<close>

text \<open>
  A caller feeds a sequence of byte chunks through \<^verbatim>\<open>update\<close>, one call per chunk, and
  concatenates what the calls return; the first exception ends the run.
\<close>

fun padding_updates ::
  "byte list list \<Rightarrow> PKCS7PaddingContext \<Rightarrow> (error + byte list) \<times> PKCS7PaddingContext" where
  "padding_updates [] c = (Inr [], c)"
| "padding_updates (d # ds) c =
     (case padding_update (Bytes d) c of
        (Inl e, c') \<Rightarrow> (Inl e, c')
      | (Inr out, c') \<Rightarrow>
          (case padding_updates ds c' of
             (Inl e, c'') \<Rightarrow> (Inl e, c'')
           | (Inr outs, c'') \<Rightarrow> (Inr (out @ outs), c'')))"

fun unpadding_updates ::
  "byte list list \<Rightarrow> PKCS7UnpaddingContext \<Rightarrow> (error + byte list) \<times> PKCS7UnpaddingContext" where
  "unpadding_updates [] c = (Inr [], c)"
| "unpadding_updates (d # ds) c =
     (case unpadding_update (Bytes d) c of
        (Inl e, c') \<Rightarrow> (Inl e, c')
      | (Inr out, c') \<Rightarrow>
          (case unpadding_updates ds c' of
             (Inl e, c'') \<Rightarrow> (Inl e, c'')
           | (Inr outs, c'') \<Rightarrow> (Inr (out @ outs), c'')))"

text \<open>
  \<open>pad b chunks\<close>: construct the scheme with block size \<open>b\<close> (in bits), obtain a padder,
  feed the chunks, finalize, and concatenate everything returned. \<open>unpad\<close> likewise.
\<close>

definition pad :: "int \<Rightarrow> byte list list \<Rightarrow> error + byte list" where
  "pad b chunks =
     (case PKCS7_init b of
        Inl e \<Rightarrow> Inl e
      | Inr s \<Rightarrow>
          (case padding_updates chunks (padder s) of
             (Inl e, c) \<Rightarrow> Inl e
           | (Inr outs, c) \<Rightarrow>
               (case padding_finalize c of
                  (Inl e, c') \<Rightarrow> Inl e
                | (Inr fin, c') \<Rightarrow> Inr (outs @ fin))))"

definition unpad :: "int \<Rightarrow> byte list list \<Rightarrow> error + byte list" where
  "unpad b chunks =
     (case PKCS7_init b of
        Inl e \<Rightarrow> Inl e
      | Inr s \<Rightarrow>
          (case unpadding_updates chunks (unpadder s) of
             (Inl e, c) \<Rightarrow> Inl e
           | (Inr outs, c) \<Rightarrow>
               (case unpadding_finalize c of
                  (Inl e, c') \<Rightarrow> Inl e
                | (Inr fin, c') \<Rightarrow> Inr (outs @ fin))))"

text \<open>The block sizes the round-trip property is stated for.\<close>

definition valid_block_size :: "int \<Rightarrow> bool" where
  "valid_block_size b = (b mod 8 = 0 \<and> 8 \<le> b \<and> b \<le> 248)"

text \<open>
  Where the two \<^verbatim>\<open>update\<close> methods cut a buffer of \<open>l\<close> bytes, for a block of \<open>n\<close>
  bytes: the padder after the last whole block, the unpadder one block earlier.
\<close>

definition pad_cut :: "nat \<Rightarrow> nat \<Rightarrow> nat" where
  "pad_cut n l = (l div n) * n"

definition unpad_cut :: "nat \<Rightarrow> nat \<Rightarrow> nat" where
  "unpad_cut n l = (l div n - 1) * n"

subsection \<open>Callers that go on after an exception\<close>

text \<open>
  A context is driven by its two methods only. A caller may catch an exception and call
  again, so a sequence of calls is run to its end, each call on the context the one
  before left, and the result of every call is kept.
\<close>

datatype call = Update data | Finalize

fun padding_call ::
  "call \<Rightarrow> PKCS7PaddingContext \<Rightarrow> (error + byte list) \<times> PKCS7PaddingContext" where
  "padding_call (Update d) c = padding_update d c"
| "padding_call Finalize c = padding_finalize c"

fun padding_calls ::
  "call list \<Rightarrow> PKCS7PaddingContext \<Rightarrow> (error + byte list) list \<times> PKCS7PaddingContext" where
  "padding_calls [] c = ([], c)"
| "padding_calls (x # xs) c =
     (case padding_call x c of
        (r, c') \<Rightarrow> (case padding_calls xs c' of (rs, c'') \<Rightarrow> (r # rs, c'')))"

fun unpadding_call ::
  "call \<Rightarrow> PKCS7UnpaddingContext \<Rightarrow> (error + byte list) \<times> PKCS7UnpaddingContext" where
  "unpadding_call (Update d) c = unpadding_update d c"
| "unpadding_call Finalize c = unpadding_finalize c"

fun unpadding_calls ::
  "call list \<Rightarrow> PKCS7UnpaddingContext \<Rightarrow> (error + byte list) list \<times> PKCS7UnpaddingContext" where
  "unpadding_calls [] c = ([], c)"
| "unpadding_calls (x # xs) c =
     (case unpadding_call x c of
        (r, c') \<Rightarrow> (case unpadding_calls xs c' of (rs, c'') \<Rightarrow> (r # rs, c'')))"

subsection \<open>Statements of the specification, in its own words\<close>

text \<open>
  What the specification says \<^verbatim>\<open>finalize\<close> of the unpadder does on a non-empty buffer:
  \<open>pad_size\<close> is the value of the final byte; the call fails if \<open>pad_size\<close> exceeds the
  block size in bytes or if the last \<open>pad_size\<close> bytes are not all equal to \<open>pad_size\<close>,
  and returns the buffer without its last \<open>pad_size\<close> bytes otherwise.
\<close>

definition claimed_unpadding_finalize :: "int \<Rightarrow> byte list \<Rightarrow> error + byte list" where
  "claimed_unpadding_finalize bs buf =
     (let pad_size = nat (uint (last buf))
      in if int pad_size > bs div 8
            \<or> \<not> list_all (\<lambda>x. uint x = int pad_size) (drop (length buf - pad_size) buf)
         then Inl InvalidPadding
         else Inr (take (length buf - pad_size) buf))"


section \<open>Auxiliary facts\<close>

subsection \<open>The mismatch accumulator\<close>

lemma int_xor_eq_0_iff: "(a XOR b = 0) = (a = (b::int))"
proof
  assume h: "a XOR b = 0"
  have "a = (a XOR b) XOR b" by (simp add: xor.assoc)
  also have "\<dots> = b" using h by simp
  finally show "a = b" .
next
  assume "a = b" then show "a XOR b = 0" by simp
qed

lemma fold_mismatch_zero:
  "(fold (\<lambda>b mismatch. mismatch OR (uint b XOR p)) w acc = 0)
     = (acc = 0 \<and> list_all (\<lambda>b. uint b = p) w)"
  by (induction w arbitrary: acc) (auto simp: or_eq_0_iff int_xor_eq_0_iff)

lemma mismatch_of_zero: "(mismatch_of w p = 0) = list_all (\<lambda>b. uint (b::byte) = p) w"
  by (simp add: mismatch_of_def fold_mismatch_zero)

subsection \<open>Arithmetic of the cuts\<close>

lemma pad_cut_le: "pad_cut n l \<le> l"
  by (simp add: pad_cut_def)

lemma unpad_cut_le: "unpad_cut n l \<le> l"
proof -
  have "(l div n - 1) * n \<le> (l div n) * n" by (rule mult_le_mono1) simp
  also have "\<dots> \<le> l" by simp
  finally show ?thesis by (simp add: unpad_cut_def)
qed

lemma pad_cut_rest: "0 < n \<Longrightarrow> l - pad_cut n l = l mod n"
  by (simp add: pad_cut_def minus_div_mult_eq_mod)


lemma div_split_add: "0 < n \<Longrightarrow> (q * n + x) div n = q + x div (n::nat)"
  by simp

lemma pad_cut_add: 
  assumes "0 < n"
  shows "pad_cut n (a + b) = pad_cut n a + pad_cut n (a - pad_cut n a + b)"
proof -
  have "a + b = (a div n) * n + (a mod n + b)" by simp
  then have "(a + b) div n = (a div n * n + (a mod n + b)) div n"
    by (rule arg_cong[of _ _ "\<lambda>x. x div n"])
  also have "\<dots> = a div n + (a mod n + b) div n"
    using assms by (rule div_split_add)
  finally have "(a + b) div n = a div n + (a mod n + b) div n" .
  moreover have "a - a div n * n = a mod n" by (simp add: minus_div_mult_eq_mod)
  ultimately show ?thesis by (simp add: pad_cut_def add_mult_distrib)
qed

lemma unpad_cut_small: "l < 2 * n \<Longrightarrow> unpad_cut n l = 0"
proof -
  assume "l < 2 * n"
  then have "l div n < 2" by (simp add: less_mult_imp_div_less mult.commute)
  then have "l div n - 1 = 0" by simp
  then show ?thesis by (simp add: unpad_cut_def)
qed

lemma unpad_cut_cases:
  assumes "0 < n"
  obtains (short) "l < n" "unpad_cut n l = 0"
        | (long) q where "l = Suc q * n + l mod n" "unpad_cut n l = q * n" "l - unpad_cut n l = n + l mod n"
proof (cases "l div n = 0")
  case True
  then have "l < n" using assms by (simp add: div_eq_0_iff)
  moreover have "unpad_cut n l = 0" using True by (simp add: unpad_cut_def)
  ultimately show ?thesis by (rule short)
next
  case False
  define q where "q = l div n - 1"
  have qa: "l div n = Suc q" using False by (simp add: q_def)
  have "l = l div n * n + l mod n" by simp
  then have a: "l = Suc q * n + l mod n" by (simp only: qa)
  have u: "unpad_cut n l = q * n" by (simp add: unpad_cut_def q_def)
  have "l - q * n = n + l mod n" using a by simp
  with a u show ?thesis by (simp add: long)
qed

lemma unpad_cut_add:
  assumes "0 < n"
  shows "unpad_cut n (a + b) = unpad_cut n a + unpad_cut n (a - unpad_cut n a + b)"
proof -
  consider (short) "a < n" "unpad_cut n a = 0"
    | (long) q where "a = Suc q * n + a mod n" "unpad_cut n a = q * n"
        "a - unpad_cut n a = n + a mod n"
    by (rule unpad_cut_cases[OF assms, of a]) blast+
  then show ?thesis
  proof cases
  case short
  then show ?thesis by simp
next
  case (long q)
  have "a + b = q * n + (n + a mod n + b)" using long(1) by simp
  then have "(a + b) div n = (q * n + (n + a mod n + b)) div n"
    by (rule arg_cong[of _ _ "\<lambda>x. x div n"])
  also have "\<dots> = q + (n + a mod n + b) div n"
    using assms by (rule div_split_add)
  finally have 1: "(a + b) div n = q + (n + a mod n + b) div n" .
  have 2: "(n + a mod n + b) div n = Suc ((a mod n + b) div n)"
    using assms div_add_self1[of n "a mod n + b"] by (simp add: add.assoc)
  have 3: "unpad_cut n (a - unpad_cut n a + b) = ((a mod n + b) div n) * n"
    by (simp only: long(3)) (simp add: unpad_cut_def 2)
  show ?thesis
    by (simp only: 3, simp only: long(2), simp add: unpad_cut_def 1 2 add_mult_distrib)
qed qed

lemma unpad_cut_rest_bound: 
  assumes "0 < n" shows "l - unpad_cut n l < 2 * n"
proof -
  consider (short) "l < n" "unpad_cut n l = 0"
    | (long) q where "l = Suc q * n + l mod n" "unpad_cut n l = q * n"
        "l - unpad_cut n l = n + l mod n"
    by (rule unpad_cut_cases[OF assms, of l]) blast+
  then show ?thesis
  proof cases
  case short
  then show ?thesis by simp
next
  case (long q)
  then show ?thesis using assms by simp
qed qed

subsection \<open>One call of \<^verbatim>\<open>update\<close> on an active context\<close>

lemma slice_to_nat: "slice_to xs (int k) = take k xs"
  by (simp add: slice_to_def)

lemma slice_from_nat: "slice_from xs (int k) = drop k xs"
  by (simp add: slice_from_def)

lemma padding_update_active:
  assumes "pad_buffer c = Some buf" and "pad_block_size c div 8 = int n" and "0 < n"
  shows "padding_update (Bytes d) c =
    (Inr (take (pad_cut n (length (buf @ d))) (buf @ d)),
     c\<lparr>pad_buffer := Some (drop (pad_cut n (length (buf @ d))) (buf @ d))\<rparr>)"
proof -
  have "int (length (buf @ d)) div int n * int n = int (pad_cut n (length (buf @ d)))"
    by (simp add: pad_cut_def zdiv_int)
  then show ?thesis using assms
    by (simp add: padding_update_def Let_def slice_to_nat slice_from_nat del: length_append)
qed

lemma unpadding_update_active:
  assumes "unpad_buffer c = Some buf" and "unpad_block_size c div 8 = int n" and "0 < n"
  shows "unpadding_update (Bytes d) c =
    (Inr (take (unpad_cut n (length (buf @ d))) (buf @ d)),
     c\<lparr>unpad_buffer := Some (drop (unpad_cut n (length (buf @ d))) (buf @ d))\<rparr>)"
proof -
  define x where "x = length (buf @ d) div n"
  have "max (int x - 1) 0 = int (x - 1)" by arith
  then have "max (int (length (buf @ d)) div int n - 1) 0 = int (length (buf @ d) div n - 1)"
    by (simp only: x_def zdiv_int)
  then have "max (int (length (buf @ d)) div int n - 1) 0 * int n = int (unpad_cut n (length (buf @ d)))"
    by (simp add: unpad_cut_def)
  then show ?thesis using assms
    by (simp add: unpadding_update_def Let_def slice_to_nat slice_from_nat del: length_append)
qed

subsection \<open>Any number of calls of \<^verbatim>\<open>update\<close>\<close>

lemma take_cut_append:
  "k1 \<le> length ys \<Longrightarrow> take k1 ys @ take k2 (drop k1 ys @ zs) = take (k1 + k2) (ys @ zs)"
  by (simp add: take_add ac_simps)

lemma drop_cut_append:
  "k1 \<le> length ys \<Longrightarrow> drop k2 (drop k1 ys @ zs) = drop (k1 + k2) (ys @ zs)"
  by (simp add: add.commute[of k1 k2] flip: drop_drop)

lemma pad_cut_small: "l < n \<Longrightarrow> pad_cut n l = 0"
  by (simp add: pad_cut_def)

lemma padding_updates_active:
  assumes "pad_block_size c div 8 = int n" and "0 < n"
    and "pad_buffer c = Some buf" and "length buf < n"
  shows "padding_updates ds c =
    (Inr (take (pad_cut n (length (buf @ concat ds))) (buf @ concat ds)),
     c\<lparr>pad_buffer := Some (drop (pad_cut n (length (buf @ concat ds))) (buf @ concat ds))\<rparr>)"
  using assms(3,4,1)
proof (induction ds arbitrary: c buf)
  case Nil
  then show ?case by (simp add: pad_cut_small)
next
  case (Cons d ds)
  let ?k1 = "pad_cut n (length (buf @ d))"
  let ?c1 = "c\<lparr>pad_buffer := Some (drop ?k1 (buf @ d))\<rparr>"
  have step: "padding_update (Bytes d) c = (Inr (take ?k1 (buf @ d)), ?c1)"
    using Cons.prems(1,3) assms(2) by (rule padding_update_active)
  have len1: "length (drop ?k1 (buf @ d)) < n"
    using assms(2) by (simp only: length_drop pad_cut_rest) simp
  have rest: "padding_updates ds ?c1 =
    (Inr (take (pad_cut n (length (drop ?k1 (buf @ d) @ concat ds))) (drop ?k1 (buf @ d) @ concat ds)),
     ?c1\<lparr>pad_buffer := Some (drop (pad_cut n (length (drop ?k1 (buf @ d) @ concat ds))) (drop ?k1 (buf @ d) @ concat ds))\<rparr>)"
    using len1 Cons.prems(3) by (intro Cons.IH) simp_all
  have le: "?k1 \<le> length (buf @ d)" by (rule pad_cut_le)
  have cut: "pad_cut n (length (buf @ concat (d # ds))) =
      ?k1 + pad_cut n (length (drop ?k1 (buf @ d) @ concat ds))"
  proof -
    have 1: "length (drop ?k1 (buf @ d) @ concat ds) = length (buf @ d) - ?k1 + length (concat ds)"
      by (simp only: length_append length_drop)
    have 2: "length (buf @ concat (d # ds)) = length (buf @ d) + length (concat ds)"
      by simp
    show ?thesis by (simp only: 1 2) (rule pad_cut_add[OF assms(2)])
  qed
  have xs: "(buf @ d) @ concat ds = buf @ concat (d # ds)" by simp
  have t: "take ?k1 (buf @ d) @
      take (pad_cut n (length (drop ?k1 (buf @ d) @ concat ds))) (drop ?k1 (buf @ d) @ concat ds)
      = take (pad_cut n (length (buf @ concat (d # ds)))) (buf @ concat (d # ds))"
    by (simp only: cut) (simp only: take_cut_append[OF le] xs)
  have dr: "drop (pad_cut n (length (drop ?k1 (buf @ d) @ concat ds))) (drop ?k1 (buf @ d) @ concat ds)
      = drop (pad_cut n (length (buf @ concat (d # ds)))) (buf @ concat (d # ds))"
    by (simp only: cut) (simp only: drop_cut_append[OF le] xs)
  show ?case
    by (simp only: padding_updates.simps step rest prod.case sum.case t dr) simp
qed

lemma unpadding_updates_active:
  assumes "unpad_block_size c div 8 = int n" and "0 < n"
    and "unpad_buffer c = Some buf" and "length buf < 2 * n"
  shows "unpadding_updates ds c =
    (Inr (take (unpad_cut n (length (buf @ concat ds))) (buf @ concat ds)),
     c\<lparr>unpad_buffer := Some (drop (unpad_cut n (length (buf @ concat ds))) (buf @ concat ds))\<rparr>)"
  using assms(3,4,1)
proof (induction ds arbitrary: c buf)
  case Nil
  then show ?case by (simp add: unpad_cut_small)
next
  case (Cons d ds)
  let ?k1 = "unpad_cut n (length (buf @ d))"
  let ?c1 = "c\<lparr>unpad_buffer := Some (drop ?k1 (buf @ d))\<rparr>"
  have step: "unpadding_update (Bytes d) c = (Inr (take ?k1 (buf @ d)), ?c1)"
    using Cons.prems(1,3) assms(2) by (rule unpadding_update_active)
  have len1: "length (drop ?k1 (buf @ d)) < 2 * n"
    using assms(2) by (simp only: length_drop unpad_cut_rest_bound)
  have rest: "unpadding_updates ds ?c1 =
    (Inr (take (unpad_cut n (length (drop ?k1 (buf @ d) @ concat ds))) (drop ?k1 (buf @ d) @ concat ds)),
     ?c1\<lparr>unpad_buffer := Some (drop (unpad_cut n (length (drop ?k1 (buf @ d) @ concat ds))) (drop ?k1 (buf @ d) @ concat ds))\<rparr>)"
    using len1 Cons.prems(3) by (intro Cons.IH) simp_all
  have le: "?k1 \<le> length (buf @ d)" by (rule unpad_cut_le)
  have cut: "unpad_cut n (length (buf @ concat (d # ds))) =
      ?k1 + unpad_cut n (length (drop ?k1 (buf @ d) @ concat ds))"
  proof -
    have 1: "length (drop ?k1 (buf @ d) @ concat ds) = length (buf @ d) - ?k1 + length (concat ds)"
      by (simp only: length_append length_drop)
    have 2: "length (buf @ concat (d # ds)) = length (buf @ d) + length (concat ds)"
      by simp
    show ?thesis by (simp only: 1 2) (rule unpad_cut_add[OF assms(2)])
  qed
  have xs: "(buf @ d) @ concat ds = buf @ concat (d # ds)" by simp
  have t: "take ?k1 (buf @ d) @
      take (unpad_cut n (length (drop ?k1 (buf @ d) @ concat ds))) (drop ?k1 (buf @ d) @ concat ds)
      = take (unpad_cut n (length (buf @ concat (d # ds)))) (buf @ concat (d # ds))"
    by (simp only: cut) (simp only: take_cut_append[OF le] xs)
  have dr: "drop (unpad_cut n (length (drop ?k1 (buf @ d) @ concat ds))) (drop ?k1 (buf @ d) @ concat ds)
      = drop (unpad_cut n (length (buf @ concat (d # ds)))) (buf @ concat (d # ds))"
    by (simp only: cut) (simp only: drop_cut_append[OF le] xs)
  show ?case
    by (simp only: unpadding_updates.simps step rest prod.case sum.case t dr) simp
qed

subsection \<open>Whole runs with a valid block size\<close>

lemma valid_block_sizeD:
  assumes "valid_block_size b"
  shows "PKCS7_init b = Inr \<lparr>block_size = b\<rparr>"
    and "b div 8 = int (nat (b div 8))" and "0 < nat (b div 8)" and "nat (b div 8) < 32"
  using assms by (auto simp: valid_block_size_def PKCS7_init_def)

lemma padding_finalize_active:
  assumes "pad_buffer c = Some buf" and "pad_block_size c div 8 = int n"
    and "length buf < n" and "n < 256"
  shows "padding_finalize c =
    (Inr (buf @ replicate (n - length buf) (of_nat (n - length buf))), c\<lparr>pad_buffer := None\<rparr>)"
proof -
  have "int n - int (length buf) = int (n - length buf)" using assms(3) by simp
  then show ?thesis using assms
    by (simp add: padding_finalize_def int2byte_def bytes_times_def)
qed

lemma pad_result:
  assumes "valid_block_size b"
  shows "pad b ds = Inr (concat ds @
     replicate (nat (b div 8) - length (concat ds) mod nat (b div 8))
       (of_nat (nat (b div 8) - length (concat ds) mod nat (b div 8))))"
proof -
  let ?n = "nat (b div 8)"
  let ?m = "concat ds"
  let ?k = "pad_cut ?n (length ?m)"
  let ?c0 = "padder \<lparr>block_size = b\<rparr>"
  note v = valid_block_sizeD[OF assms]
  have bs: "pad_block_size ?c0 div 8 = int ?n" using v(2) by (simp add: padder_def)
  have ups: "padding_updates ds ?c0 = (Inr (take ?k ?m), ?c0\<lparr>pad_buffer := Some (drop ?k ?m)\<rparr>)"
    using padding_updates_active[OF bs v(3), of "[]" ds] v(3) by (simp add: padder_def)
  have len: "length (drop ?k ?m) = length ?m mod ?n"
    using v(3) by (simp only: length_drop pad_cut_rest)
  let ?c1 = "?c0\<lparr>pad_buffer := Some (drop ?k ?m)\<rparr>"
  have lt: "length (drop ?k ?m) < ?n" using v(3) by (simp only: len) simp
  have bs1: "pad_block_size ?c1 div 8 = int ?n" using bs by simp
  have buf1: "pad_buffer ?c1 = Some (drop ?k ?m)" by simp
  have n256: "?n < 256" using v(4) by simp
  have fin0: "padding_finalize ?c1 =
     (Inr (drop ?k ?m @ replicate (?n - length (drop ?k ?m)) (of_nat (?n - length (drop ?k ?m)))),
      ?c1\<lparr>pad_buffer := None\<rparr>)"
    using buf1 bs1 lt n256 by (rule padding_finalize_active)
  have fin: "padding_finalize ?c1 =
     (Inr (drop ?k ?m @ replicate (?n - length ?m mod ?n) (of_nat (?n - length ?m mod ?n))),
      ?c1\<lparr>pad_buffer := None\<rparr>)"
    by (simp only: fin0 len)
  show ?thesis
    by (simp only: pad_def v(1) ups fin sum.case prod.case) simp
qed

lemma slice_from_neg:
  "slice_from xs (- int p) = (if p = 0 then xs else drop (length xs - p) xs)"
  by (simp add: slice_from_def nat_diff_distrib')

lemma slice_to_neg:
  "slice_to xs (- int p) = (if p = 0 then [] else take (length xs - p) xs)"
  by (simp add: slice_to_def nat_diff_distrib')

lemma unpadding_finalize_active:
  assumes "unpad_buffer c = Some buf" and "buf \<noteq> []" and "uint (last buf) = int p"
  shows "unpadding_finalize c =
    (if int p > unpad_block_size c div 8 \<or> \<not> list_all (\<lambda>x. uint x = int p) (slice_from buf (- int p))
     then (Inl InvalidPadding, c)
     else (Inr (slice_to buf (- int p)), c\<lparr>unpad_buffer := None\<rparr>))"
  using assms by (simp add: unpadding_finalize_def mismatch_of_zero Let_def)

lemma unpad_result:
  assumes "valid_block_size b"
  shows "unpad b ds =
    (case unpadding_finalize \<lparr>unpad_block_size = b, unpad_buffer =
         Some (drop (unpad_cut (nat (b div 8)) (length (concat ds))) (concat ds))\<rparr> of
       (Inl e, c') \<Rightarrow> Inl e
     | (Inr fin, c') \<Rightarrow>
         Inr (take (unpad_cut (nat (b div 8)) (length (concat ds))) (concat ds) @ fin))"
proof -
  let ?n = "nat (b div 8)"
  let ?c0 = "unpadder \<lparr>block_size = b\<rparr>"
  note v = valid_block_sizeD[OF assms]
  have bs: "unpad_block_size ?c0 div 8 = int ?n" using v(2) by (simp add: unpadder_def)
  have ups: "unpadding_updates ds ?c0 =
     (Inr (take (unpad_cut ?n (length (concat ds))) (concat ds)),
      \<lparr>unpad_block_size = b, unpad_buffer =
         Some (drop (unpad_cut ?n (length (concat ds))) (concat ds))\<rparr>)"
    using unpadding_updates_active[OF bs v(3), of "[]" ds] v(3) by (simp add: unpadder_def)
  show ?thesis
    by (simp only: unpad_def v(1) ups sum.case prod.case)
qed

subsection \<open>Unpadding a padded message\<close>

lemma uint_byte_of_nat: "k < 256 \<Longrightarrow> uint (of_nat k :: byte) = int k"
proof -
  assume "k < 256"
  then have "int k mod 256 = int k" by simp
  then show ?thesis
    using uint_word_of_int[of "int k", where 'a = 8] by simp
qed

lemma unpad_cut_blocks: "0 < n \<Longrightarrow> unpad_cut n (Suc q * n) = q * n"
  by (simp add: unpad_cut_def)

text \<open>The padded message: the message, then \<open>k\<close> bytes of value \<open>k\<close>.\<close>

lemma unpadding_finalize_padded:
  assumes "0 < k" and "k < 256" and "int k \<le> unpad_block_size c div 8"
    and "unpad_buffer c = Some (xs @ replicate k (of_nat k))"
  shows "unpadding_finalize c = (Inr xs, c\<lparr>unpad_buffer := None\<rparr>)"
proof -
  let ?buf = "xs @ replicate k (of_nat k :: byte)"
  have ne: "?buf \<noteq> []" using assms(1) by simp
  have l: "uint (last ?buf) = int k" using assms(1,2) by (simp add: uint_byte_of_nat)
  have w: "slice_from ?buf (- int k) = replicate k (of_nat k)"
    using assms(1) by (simp add: slice_from_neg)
  have r: "slice_to ?buf (- int k) = xs"
    using assms(1) by (simp add: slice_to_neg)
  have a: "list_all (\<lambda>x. uint x = int k) (replicate k (of_nat k :: byte))"
    using assms(2) by (simp add: list_all_iff uint_byte_of_nat)
  show ?thesis
    using assms(3) a by (simp only: unpadding_finalize_active[OF assms(4) ne l] w r) simp
qed

lemma padded_length:
  assumes "0 < n"
  shows "l + (n - l mod n) = Suc (l div n) * n"
proof -
  define q where "q = l div n"
  define r where "r = l mod n"
  have "r < n" using assms by (simp add: r_def)
  moreover have "l = q * n + r" by (simp add: q_def r_def)
  ultimately have "l + (n - r) = Suc q * n" by simp
  then show ?thesis by (simp only: q_def r_def)
qed

lemma unpad_of_padded:
  assumes "valid_block_size b"
    and "concat ds = m @ replicate (nat (b div 8) - length m mod nat (b div 8))
       (of_nat (nat (b div 8) - length m mod nat (b div 8)))"
  shows "unpad b ds = Inr m"
proof -
  let ?n = "nat (b div 8)"
  let ?k = "?n - length m mod ?n"
  let ?q = "length m div ?n"
  let ?tail = "replicate ?k (of_nat ?k :: byte)"
  note v = valid_block_sizeD[OF assms(1)]
  have k: "0 < ?k" "?k \<le> ?n" "?k < 256" using v(3,4) by simp_all
  have len: "length (concat ds) = Suc ?q * ?n"
    by (simp only: assms(2) length_append length_replicate padded_length[OF v(3)])
  have cut: "unpad_cut ?n (length (concat ds)) = ?q * ?n"
    using v(3) by (simp only: len unpad_cut_blocks)
  have le: "?q * ?n \<le> length m" by simp
  have dr: "drop (?q * ?n) (concat ds) = drop (?q * ?n) m @ ?tail"
    using le by (simp only: assms(2) drop_append) simp
  have tk: "take (?q * ?n) (concat ds) = take (?q * ?n) m"
    using le by (simp only: assms(2) take_append) simp
  let ?c = "\<lparr>unpad_block_size = b, unpad_buffer = Some (drop (?q * ?n) m @ ?tail)\<rparr>"
  have fin: "unpadding_finalize ?c = (Inr (drop (?q * ?n) m), ?c\<lparr>unpad_buffer := None\<rparr>)"
    using k(1,3) 
  proof (rule unpadding_finalize_padded)
    have "int ?k \<le> int ?n" using k(2) by (simp only: of_nat_le_iff)
    also have "int ?n = b div 8" by (rule v(2)[symmetric])
    finally show "int ?k \<le> unpad_block_size ?c div 8" by simp
    show "unpad_buffer ?c = Some (drop (?q * ?n) m @ ?tail)" by simp
  qed
  show ?thesis
    by (simp only: unpad_result[OF assms(1)] cut dr tk fin prod.case sum.case append_take_drop_id)
qed

subsection \<open>Finalized contexts\<close>

lemma padding_finalized:
  assumes "pad_buffer c = None"
  shows "padding_calls xs c = (replicate (length xs) (Inl UseAfterFinalize), c)"
proof (induction xs)
  case Nil
  show ?case by simp
next
  case (Cons x xs)
  have "padding_call x c = (Inl UseAfterFinalize, c)"
    using assms by (cases x) (simp_all add: padding_update_def padding_finalize_def)
  then show ?case using Cons.IH by simp
qed

lemma unpadding_finalized:
  assumes "unpad_buffer c = None"
  shows "unpadding_calls xs c = (replicate (length xs) (Inl UseAfterFinalize), c)"
proof (induction xs)
  case Nil
  show ?case by simp
next
  case (Cons x xs)
  have "unpadding_call x c = (Inl UseAfterFinalize, c)"
    using assms by (cases x) (simp_all add: unpadding_update_def unpadding_finalize_def)
  then show ?case using Cons.IH by simp
qed

lemma padding_finalize_ok: "padding_finalize c = (Inr r, c') \<Longrightarrow> pad_buffer c' = None"
  by (auto simp: padding_finalize_def Let_def split: option.splits sum.splits)

lemma unpadding_finalize_ok: "unpadding_finalize c = (Inr r, c') \<Longrightarrow> unpad_buffer c' = None"
  by (auto simp: unpadding_finalize_def Let_def split: option.splits if_splits)

subsection \<open>The buffer of a padder stays shorter than a block\<close>

lemma padding_call_invariant:
  assumes "pad_block_size c div 8 = int n" and "0 < n" and "n < 256"
    and "\<forall>buf. pad_buffer c = Some buf \<longrightarrow> length buf < n"
  shows "pad_block_size (snd (padding_call x c)) = pad_block_size c
    \<and> (\<forall>buf. pad_buffer (snd (padding_call x c)) = Some buf \<longrightarrow> length buf < n)"
proof (cases "pad_buffer c")
  case None
  then have "snd (padding_call x c) = c"
    by (cases x) (simp_all add: padding_update_def padding_finalize_def)
  then show ?thesis using assms(4) by simp
next
  case (Some buf)
  then have len: "length buf < n" using assms(4) by simp
  show ?thesis
  proof (cases x)
    case (Update d)
    show ?thesis
    proof (cases d)
      case (Text t)
      then have "snd (padding_call x c) = c"
        using Update Some by (simp add: padding_update_def)
      then show ?thesis using assms(4) by simp
    next
      case (Bytes bs)
      define X where "X = drop (pad_cut n (length (buf @ bs))) (buf @ bs)"
      have lenX: "length X < n"
        using assms(2) by (simp only: X_def length_drop pad_cut_rest) simp
      have "padding_update (Bytes bs) c =
          (Inr (take (pad_cut n (length (buf @ bs))) (buf @ bs)), c\<lparr>pad_buffer := Some X\<rparr>)"
        unfolding X_def using Some assms(1,2) by (rule padding_update_active)
      then show ?thesis
        using Update Bytes lenX by simp
    qed
  next
    case Finalize
    then show ?thesis
      using padding_finalize_active[OF Some assms(1) len assms(3)] by simp
  qed
qed

lemma padding_calls_invariant:
  assumes "0 < n" and "n < 256"
    and "pad_block_size c div 8 = int n"
    and "\<forall>buf. pad_buffer c = Some buf \<longrightarrow> length buf < n"
  shows "pad_block_size (snd (padding_calls xs c)) = pad_block_size c
    \<and> (\<forall>buf. pad_buffer (snd (padding_calls xs c)) = Some buf \<longrightarrow> length buf < n)"
  using assms(3,4)
proof (induction xs arbitrary: c)
  case Nil
  then show ?case by simp
next
  case (Cons x xs)
  let ?c1 = "snd (padding_call x c)"
  have 1: "pad_block_size ?c1 = pad_block_size c
    \<and> (\<forall>buf. pad_buffer ?c1 = Some buf \<longrightarrow> length buf < n)"
    using Cons.prems(1) assms(1,2) Cons.prems(2) by (rule padding_call_invariant)
  then have bs: "pad_block_size ?c1 div 8 = int n" using Cons.prems(1) by simp
  have 2: "pad_block_size (snd (padding_calls xs ?c1)) = pad_block_size ?c1
    \<and> (\<forall>buf. pad_buffer (snd (padding_calls xs ?c1)) = Some buf \<longrightarrow> length buf < n)"
    using bs 1 by (intro Cons.IH) simp_all
  have 3: "snd (padding_calls (x # xs) c) = snd (padding_calls xs ?c1)"
    by (simp split: prod.splits)
  show ?case using 1 2 by (simp only: 3) simp
qed

subsection \<open>Rejected padding\<close>












subsection \<open>The unpadder on a final byte of at least 1\<close>

lemma unpadding_finalize_from_one:
  assumes "unpad_buffer c = Some buf" and "buf \<noteq> []" and "1 \<le> uint (last buf)"
  shows "unpadding_finalize c =
    (case claimed_unpadding_finalize (unpad_block_size c) buf of
       Inl e \<Rightarrow> (Inl e, c)
     | Inr r \<Rightarrow> (Inr r, c\<lparr>unpad_buffer := None\<rparr>))"
proof -
  let ?p = "nat (uint (last buf))"
  have l: "uint (last buf) = int ?p" by simp
  have "0 < uint (last buf)" using assms(3) by arith
  then have "0 < ?p" by (simp only: zero_less_nat_eq)
  then have p: "?p \<noteq> 0" by (rule less_imp_neq[THEN not_sym])
  show ?thesis
    using p
    by (simp only: unpadding_finalize_active[OF assms(1,2) l] claimed_unpadding_finalize_def
        slice_from_neg slice_to_neg Let_def) simp
qed

section \<open>Properties of the specification\<close>

subsection \<open>Round trip\<close>

text \<open>
  Claim C1. For every byte sequence \<open>m\<close> and every valid block size \<open>b\<close> (a multiple of 8
  with \<open>8 \<le> b \<le> 248\<close>): padding \<open>m\<close>, fed in any chunks \<open>cs\<close>, succeeds, and unpadding
  the padded bytes, fed in any chunks \<open>ds\<close>, returns exactly \<open>m\<close>.
\<close>

theorem pkcs7_roundtrip:
  assumes "valid_block_size b"
  shows "(\<exists>p. pad b cs = Inr p) \<and>
    (pad b cs = Inr (concat ds) \<longrightarrow> unpad b ds = Inr (concat cs))"
proof
  show "\<exists>p. pad b cs = Inr p" using pad_result[OF assms] by blast
  show "pad b cs = Inr (concat ds) \<longrightarrow> unpad b ds = Inr (concat cs)"
  proof
    assume "pad b cs = Inr (concat ds)"
    then have "concat ds = concat cs @
       replicate (nat (b div 8) - length (concat cs) mod nat (b div 8))
         (of_nat (nat (b div 8) - length (concat cs) mod nat (b div 8)))"
      by (simp only: pad_result[OF assms] sum.inject)
    with assms show "unpad b ds = Inr (concat cs)" by (rule unpad_of_padded)
  qed
qed

theorem pkcs7_roundtrip_witness:
  "valid_block_size 64
   \<and> pad 64 [[1, 2], [3]] = Inr (concat [[1, 2, 3, 5], [5, 5, 5, 5]])
   \<and> unpad 64 [[1, 2, 3, 5], [5, 5, 5, 5]] = Inr (concat [[1, 2], [3]])"
proof -
  have v: "valid_block_size 64" by (simp add: valid_block_size_def)
  have p: "pad 64 [[1, 2], [3]] = Inr (concat [[1, 2, 3, 5], [5, 5, 5, 5]])"
    by code_simp
  from pkcs7_roundtrip[OF v, of "[[1, 2], [3]]" "[[1, 2, 3, 5], [5, 5, 5, 5]]"] p v
  show ?thesis by blast
qed

subsection \<open>Chunking invariance\<close>

text \<open>
  Claim C6. For every byte sequence and valid block size, any two ways \<open>cs\<close> and \<open>cs'\<close> of
  splitting the same bytes into \<^verbatim>\<open>update\<close> calls (one byte per call and one call for the
  whole input among them) give the same concatenated output of the updates, leave the same
  context, and give the same result after \<^verbatim>\<open>finalize\<close>, for the padder and for the
  unpadder alike.
\<close>

theorem chunking_invariance:
  assumes "valid_block_size b" and "concat cs = concat cs'"
  shows "padding_updates cs (padder \<lparr>block_size = b\<rparr>) = padding_updates cs' (padder \<lparr>block_size = b\<rparr>)
     \<and> pad b cs = pad b cs'
     \<and> unpadding_updates cs (unpadder \<lparr>block_size = b\<rparr>) = unpadding_updates cs' (unpadder \<lparr>block_size = b\<rparr>)
     \<and> unpad b cs = unpad b cs'"
proof -
  note v = valid_block_sizeD[OF assms(1)]
  have pb: "pad_block_size (padder \<lparr>block_size = b\<rparr>) div 8 = int (nat (b div 8))"
    using v(2) by (simp add: padder_def)
  have ub: "unpad_block_size (unpadder \<lparr>block_size = b\<rparr>) div 8 = int (nat (b div 8))"
    using v(2) by (simp add: unpadder_def)
  have p0: "pad_buffer (padder \<lparr>block_size = b\<rparr>) = Some []" by (simp add: padder_def)
  have u0: "unpad_buffer (unpadder \<lparr>block_size = b\<rparr>) = Some []" by (simp add: unpadder_def)
  have l1: "length ([]::byte list) < nat (b div 8)" using v(3) by simp
  have l2: "length ([]::byte list) < 2 * nat (b div 8)" using v(3) by simp
  have 1: "padding_updates cs (padder \<lparr>block_size = b\<rparr>) = padding_updates cs' (padder \<lparr>block_size = b\<rparr>)"
    by (simp only: padding_updates_active[OF pb v(3) p0 l1] assms(2))
  have 2: "pad b cs = pad b cs'"
    by (simp only: pad_result[OF assms(1)] assms(2))
  have 3: "unpadding_updates cs (unpadder \<lparr>block_size = b\<rparr>) = unpadding_updates cs' (unpadder \<lparr>block_size = b\<rparr>)"
    by (simp only: unpadding_updates_active[OF ub v(3) u0 l2] assms(2))
  have 4: "unpad b cs = unpad b cs'"
    by (simp only: unpad_result[OF assms(1)] assms(2))
  from 1 2 3 4 show ?thesis by blast
qed

theorem chunking_invariance_witness:
  "valid_block_size 64
   \<and> concat [[1], [2], [3 :: byte]] = concat [[1, 2, 3]]
   \<and> pad 64 [[1], [2], [3]] = pad 64 [[1, 2, 3]]
   \<and> unpad 64 [[1], [2], [3]] = unpad 64 [[1, 2, 3]]"
proof -
  have v: "valid_block_size 64" by (simp add: valid_block_size_def)
  have c: "concat [[1], [2], [3 :: byte]] = concat [[1, 2, 3]]" by simp
  from chunking_invariance[OF v c] v c show ?thesis by blast
qed

subsection \<open>Use after finalize\<close>

text \<open>
  Claim C7. On a padding or unpadding context on which \<^verbatim>\<open>finalize\<close> has succeeded, every
  later call of \<^verbatim>\<open>update\<close>, with any argument (bytes or text), and every later call of
  \<^verbatim>\<open>finalize\<close> fails with UseAfterFinalize and leaves the context as it is; so does
  every call of any later sequence of calls \<open>xs\<close>.
\<close>

theorem use_after_finalize:
  "(padding_finalize c = (Inr r, c') \<longrightarrow>
      padding_update d c' = (Inl UseAfterFinalize, c')
      \<and> padding_finalize c' = (Inl UseAfterFinalize, c')
      \<and> padding_calls xs c' = (replicate (length xs) (Inl UseAfterFinalize), c'))
   \<and> (unpadding_finalize u = (Inr s, u') \<longrightarrow>
      unpadding_update d u' = (Inl UseAfterFinalize, u')
      \<and> unpadding_finalize u' = (Inl UseAfterFinalize, u')
      \<and> unpadding_calls xs u' = (replicate (length xs) (Inl UseAfterFinalize), u'))"
proof (intro conjI impI)
  assume "padding_finalize c = (Inr r, c')"
  then have n: "pad_buffer c' = None" by (rule padding_finalize_ok)
  show "padding_update d c' = (Inl UseAfterFinalize, c')" using n by (simp add: padding_update_def)
  show "padding_finalize c' = (Inl UseAfterFinalize, c')" using n by (simp add: padding_finalize_def)
  show "padding_calls xs c' = (replicate (length xs) (Inl UseAfterFinalize), c')"
    using n by (rule padding_finalized)
next
  assume "unpadding_finalize u = (Inr s, u')"
  then have n: "unpad_buffer u' = None" by (rule unpadding_finalize_ok)
  show "unpadding_update d u' = (Inl UseAfterFinalize, u')" using n by (simp add: unpadding_update_def)
  show "unpadding_finalize u' = (Inl UseAfterFinalize, u')" using n by (simp add: unpadding_finalize_def)
  show "unpadding_calls xs u' = (replicate (length xs) (Inl UseAfterFinalize), u')"
    using n by (rule unpadding_finalized)
qed


theorem use_after_finalize_witness:
  "padding_finalize \<lparr>pad_block_size = 16, pad_buffer = Some [7]\<rparr>
      = (Inr [7, 1], \<lparr>pad_block_size = 16, pad_buffer = None\<rparr>)
   \<and> padding_update (Text ''abc'') \<lparr>pad_block_size = 16, pad_buffer = None\<rparr>
      = (Inl UseAfterFinalize, \<lparr>pad_block_size = 16, pad_buffer = None\<rparr>)
   \<and> padding_calls [Update (Bytes [1]), Finalize] \<lparr>pad_block_size = 16, pad_buffer = None\<rparr>
      = ([Inl UseAfterFinalize, Inl UseAfterFinalize], \<lparr>pad_block_size = 16, pad_buffer = None\<rparr>)
   \<and> unpadding_finalize \<lparr>unpad_block_size = 16, unpad_buffer = Some [7, 1]\<rparr>
      = (Inr [7], \<lparr>unpad_block_size = 16, unpad_buffer = None\<rparr>)
   \<and> unpadding_update (Text ''abc'') \<lparr>unpad_block_size = 16, unpad_buffer = None\<rparr>
      = (Inl UseAfterFinalize, \<lparr>unpad_block_size = 16, unpad_buffer = None\<rparr>)
   \<and> unpadding_calls [Update (Bytes [1]), Finalize] \<lparr>unpad_block_size = 16, unpad_buffer = None\<rparr>
      = ([Inl UseAfterFinalize, Inl UseAfterFinalize], \<lparr>unpad_block_size = 16, unpad_buffer = None\<rparr>)"
proof -
  have p: "padding_finalize \<lparr>pad_block_size = 16, pad_buffer = Some [7]\<rparr>
      = (Inr [7, 1], \<lparr>pad_block_size = 16, pad_buffer = None\<rparr>)"
    by (simp add: padding_finalize_def int2byte_def bytes_times_def)
  have u: "unpadding_finalize \<lparr>unpad_block_size = 16, unpad_buffer = Some [7, 1]\<rparr>
      = (Inr [7], \<lparr>unpad_block_size = 16, unpad_buffer = None\<rparr>)"
    by (simp add: unpadding_finalize_def mismatch_of_def slice_from_def slice_to_def)
  from use_after_finalize[of "\<lparr>pad_block_size = 16, pad_buffer = Some [7]\<rparr>" "[7, 1]"
      "\<lparr>pad_block_size = 16, pad_buffer = None\<rparr>" "Text ''abc''"
      "[Update (Bytes [1]), Finalize]"
      "\<lparr>unpad_block_size = 16, unpad_buffer = Some [7, 1]\<rparr>" "[7]"
      "\<lparr>unpad_block_size = 16, unpad_buffer = None\<rparr>"] p u
  show ?thesis by simp
qed

subsection \<open>Block size 0\<close>

text \<open>
  Claim C9. Constructing the scheme with block size 0 succeeds (no InvalidParameter), and a
  later \<^verbatim>\<open>update\<close> with bytes \<open>d\<close>, on the padder or the unpadder obtained from it, divides
  by zero (the block has 0 bytes) rather than raising one of the errors of the
  specification; the buffer has been extended by then, whatever it held.
\<close>

theorem zero_block_size:
  "PKCS7_init 0 = Inr \<lparr>block_size = 0\<rparr>
   \<and> padding_update (Bytes d) (padder \<lparr>block_size = 0\<rparr>)
       = (Inl ZeroDivisionError, \<lparr>pad_block_size = 0, pad_buffer = Some d\<rparr>)
   \<and> unpadding_update (Bytes d) (unpadder \<lparr>block_size = 0\<rparr>)
       = (Inl ZeroDivisionError, \<lparr>unpad_block_size = 0, unpad_buffer = Some d\<rparr>)
   \<and> padding_update (Bytes d) \<lparr>pad_block_size = 0, pad_buffer = Some buf\<rparr>
       = (Inl ZeroDivisionError, \<lparr>pad_block_size = 0, pad_buffer = Some (buf @ d)\<rparr>)
   \<and> unpadding_update (Bytes d) \<lparr>unpad_block_size = 0, unpad_buffer = Some buf\<rparr>
       = (Inl ZeroDivisionError, \<lparr>unpad_block_size = 0, unpad_buffer = Some (buf @ d)\<rparr>)"
  by (simp add: PKCS7_init_def padder_def unpadder_def padding_update_def unpadding_update_def)

subsection \<open>A final byte of 0\<close>

text \<open>
  Claim C10. For every active unpadding context whose non-empty buffer ends in the byte 0,
  \<^verbatim>\<open>finalize\<close> succeeds if and only if every byte of the buffer is 0, and then returns the
  empty byte sequence (not the buffer); otherwise it fails with InvalidPadding.
\<close>

theorem zero_pad_byte:
  assumes "unpad_buffer c = Some buf" and "buf \<noteq> []" and "last buf = 0"
    and "0 \<le> unpad_block_size c"
  shows "unpadding_finalize c =
    (if list_all (\<lambda>x. x = 0) buf then (Inr [], c\<lparr>unpad_buffer := None\<rparr>)
     else (Inl InvalidPadding, c))"
proof -
  have l: "uint (last buf) = int 0" using assms(3) by simp
  have bs: "\<not> int 0 > unpad_block_size c div 8" using assms(4) by simp
  have w: "slice_from buf (- int 0) = buf" by (simp add: slice_from_def)
  have r: "slice_to buf (- int 0) = []" by (simp add: slice_to_def)
  have a: "list_all (\<lambda>x. uint x = int 0) buf = list_all (\<lambda>x. x = 0) buf"
    by (simp add: list_all_iff uint_0_iff)
  show ?thesis
    using bs by (simp only: unpadding_finalize_active[OF assms(1,2) l] w r a) simp
qed

theorem zero_pad_byte_witness:
  "[0, 0, 0, 0, 0, 0, 0, 0 :: byte] \<noteq> [] \<and> last [0, 0, 0, 0, 0, 0, 0, 0 :: byte] = 0
   \<and> (0 :: int) \<le> 64
   \<and> unpadding_finalize \<lparr>unpad_block_size = 64, unpad_buffer = Some [0, 0, 0, 0, 0, 0, 0, 0]\<rparr>
     = (Inr [], \<lparr>unpad_block_size = 64, unpad_buffer = None\<rparr>)"
  using zero_pad_byte[of "\<lparr>unpad_block_size = 64, unpad_buffer = Some [0, 0, 0, 0, 0, 0, 0, 0]\<rparr>"
      "[0, 0, 0, 0, 0, 0, 0, 0]"]
  by simp

subsection \<open>Input shorter than one block\<close>

text \<open>
  Claim C3 says that \<^verbatim>\<open>finalize\<close> of an unpadder fails with InvalidPadding whenever the
  total input is empty or shorter than one block. The code tests for the empty buffer only:
  with blocks of 8 bytes, the two bytes \<^verbatim>\<open>03 03\<close> are accepted and unpadded to the empty
  byte sequence, the slice \<^verbatim>\<open>buffer[-3:]\<close> being clamped to the two bytes there are.
\<close>

theorem unpad_short_input_accepted: "unpad 64 [[3, 3]] = Inr []"
  by code_simp

subsection \<open>What the padder appends\<close>

text \<open>
  Claim C5. For every active padding context with a valid block size (any context \<open>c\<close>
  that calls of \<^verbatim>\<open>update\<close> and \<^verbatim>\<open>finalize\<close> lead to from a fresh padder, and that still
  has its buffer \<open>buf\<close>), \<open>pad_size = block_size_bytes - len(buffer)\<close> lies between 1 and
  the block size in bytes, is the value of the byte appended, and \<^verbatim>\<open>finalize\<close> returns the
  buffer followed by that byte \<open>pad_size\<close> times. In particular, for an input \<open>ds\<close> whose
  length is a multiple of the block size, the padded output is the input followed by a
  whole block of bytes equal to the block size in bytes.
\<close>

theorem padding_finalize_pads:
  assumes "valid_block_size b"
    and "snd (padding_calls xs (padder \<lparr>block_size = b\<rparr>)) = c"
    and "pad_buffer c = Some buf"
  shows "1 \<le> b div 8 - int (length buf) \<and> b div 8 - int (length buf) \<le> b div 8
    \<and> uint (word_of_int (b div 8 - int (length buf)) :: byte) = b div 8 - int (length buf)
    \<and> padding_finalize c =
        (Inr (buf @ replicate (nat (b div 8 - int (length buf)))
                      (word_of_int (b div 8 - int (length buf)))),
         c\<lparr>pad_buffer := None\<rparr>)
    \<and> (length (concat ds) mod nat (b div 8) = 0 \<longrightarrow>
         pad b ds = Inr (concat ds @ replicate (nat (b div 8)) (word_of_int (b div 8))))"
proof -
  let ?n = "nat (b div 8)"
  let ?c0 = "padder \<lparr>block_size = b\<rparr>"
  note v = valid_block_sizeD[OF assms(1)]
  have n256: "?n < 256" using v(4) by simp
  have bs0: "pad_block_size ?c0 div 8 = int ?n" using v(2) by (simp add: padder_def)
  have b0: "\<forall>buf. pad_buffer ?c0 = Some buf \<longrightarrow> length buf < ?n"
    using v(3) by (simp add: padder_def)
  have inv: "pad_block_size c = pad_block_size ?c0
    \<and> (\<forall>buf. pad_buffer c = Some buf \<longrightarrow> length buf < ?n)"
    using padding_calls_invariant[OF v(3) n256 bs0 b0, of xs] unfolding assms(2) .
  then have bs: "pad_block_size c div 8 = int ?n" and len: "length buf < ?n"
    using bs0 assms(3) by simp_all
  define k where "k = ?n - length buf"
  have k: "1 \<le> k" "k \<le> ?n" "k < 256" using len n256 by (simp_all add: k_def)
  have "int ?n - int (length buf) = int k" using len by (simp add: k_def)
  then have ps: "b div 8 - int (length buf) = int k" by (simp only: v(2)[symmetric])
  have fin: "padding_finalize c =
     (Inr (buf @ replicate k (of_nat k)), c\<lparr>pad_buffer := None\<rparr>)"
    unfolding k_def using assms(3) bs len n256 by (rule padding_finalize_active)
  have u: "uint (of_nat k :: byte) = int k"
    using k(3) by (rule uint_byte_of_nat)
  have 1: "1 \<le> int k" using k(1) by simp
  have "int k \<le> int ?n" using k(2) by (simp only: of_nat_le_iff)
  also have "int ?n = b div 8" by (rule v(2)[symmetric])
  finally have 2: "int k \<le> b div 8" .
  have 5: "length (concat ds) mod ?n = 0 \<longrightarrow>
         pad b ds = Inr (concat ds @ replicate ?n (word_of_int (b div 8)))"
  proof
    assume "length (concat ds) mod ?n = 0"
    then have "pad b ds = Inr (concat ds @ replicate ?n (of_nat ?n))"
      using pad_result[OF assms(1), of ds] by simp
    also have "(of_nat ?n :: byte) = word_of_int (b div 8)"
    proof -
      have "(word_of_int (b div 8) :: byte) = word_of_int (int ?n)"
        by (rule arg_cong[OF v(2)])
      also have "\<dots> = of_nat ?n" by (rule of_int_of_nat_eq)
      finally show ?thesis by (rule sym)
    qed
    finally show "pad b ds = Inr (concat ds @ replicate ?n (word_of_int (b div 8)))" .
  qed
  show ?thesis
    using 1 2 u fin 5 by (simp only: ps nat_int of_int_of_nat_eq)
qed

theorem padding_finalize_pads_witness:
  "valid_block_size 64
   \<and> snd (padding_calls [Update (Bytes [1, 2, 3])] (padder \<lparr>block_size = 64\<rparr>))
       = \<lparr>pad_block_size = 64, pad_buffer = Some [1, 2, 3]\<rparr>
   \<and> padding_finalize \<lparr>pad_block_size = 64, pad_buffer = Some [1, 2, 3]\<rparr>
       = (Inr [1, 2, 3, 5, 5, 5, 5, 5], \<lparr>pad_block_size = 64, pad_buffer = None\<rparr>)
   \<and> pad 64 [[1, 2, 3, 4, 5, 6, 7, 8]]
       = Inr [1, 2, 3, 4, 5, 6, 7, 8, 8, 8, 8, 8, 8, 8, 8, 8]"
proof -
  have v: "valid_block_size 64" by (simp add: valid_block_size_def)
  have r: "snd (padding_calls [Update (Bytes [1, 2, 3])] (padder \<lparr>block_size = 64\<rparr>))
       = \<lparr>pad_block_size = 64, pad_buffer = Some [1, 2, 3]\<rparr>"
    by (simp add: padder_def padding_update_def slice_to_def slice_from_def)
  have b: "pad_buffer \<lparr>pad_block_size = 64, pad_buffer = Some [1, 2, 3]\<rparr> = Some [1, 2, 3]"
    by simp
  from padding_finalize_pads[OF v r b, of "[[1, 2, 3, 4, 5, 6, 7, 8]]"] v r
  show ?thesis by (simp add: eval_nat_numeral)
qed

subsection \<open>What the unpadder checks\<close>

text \<open>
  Claim C4. On a non-empty buffer, \<^verbatim>\<open>finalize\<close> of the unpadder reads \<open>pad_size\<close> from the
  final byte, fails with InvalidPadding if \<open>pad_size\<close> exceeds the block size in bytes or
  if the last \<open>pad_size\<close> bytes are not all equal to \<open>pad_size\<close>, and otherwise returns the
  buffer with exactly the last \<open>pad_size\<close> bytes removed: this is
  \<^const>\<open>claimed_unpadding_finalize\<close>. The code does so for every final byte of at least 1
  (lemma \<open>unpadding_finalize_from_one\<close>). For a final byte of 0 it does not: the slice
  \<^verbatim>\<open>buffer[-0:]\<close> is the whole buffer and \<^verbatim>\<open>buffer[:-0]\<close> is empty, so a block of eight
  zero bytes is unpadded to the empty sequence, where removing the last 0 bytes leaves the
  eight bytes.
\<close>

theorem unpadding_finalize_zero_block:
  "unpadding_finalize \<lparr>unpad_block_size = 64, unpad_buffer = Some [0, 0, 0, 0, 0, 0, 0, 0]\<rparr>
     = (Inr [], \<lparr>unpad_block_size = 64, unpad_buffer = None\<rparr>)
   \<and> claimed_unpadding_finalize 64 [0, 0, 0, 0, 0, 0, 0, 0] = Inr [0, 0, 0, 0, 0, 0, 0, 0]"
  by (simp add: unpadding_finalize_def claimed_unpadding_finalize_def mismatch_of_def
      slice_from_def slice_to_def)

subsection \<open>Tamper detection\<close>




end
